theory Spec2Isabelle
  imports Main "HOL-Library.Word" "HOL-Library.Multiset"
begin

section \<open>Numeric type of the instantiation\<close>

text \<open>
  The program instantiates the template \<open>accumulate<T, policy>\<close> at \<open>T = int\<close> only.
  The C++ \<open>int\<close> is a 32-bit two's complement integer; additions are modelled as the
  wrapping addition of \<open>32 word\<close>, the comparison \<open>i < end\<close> as the signed comparison
  \<open><s\<close>, and \<open>sint\<close> reads the signed value.
\<close>

type_synonym int32 = "32 word"

text \<open>
  The reading "reduced modulo \<open>2^32\<close> and reinterpreted as a signed 32-bit integer",
  written out on mathematical integers.
\<close>

definition to_int32 :: "int \<Rightarrow> int" where
  "to_int32 x = (let m = x mod 2 ^ 32 in if m < 2 ^ 31 then m else m - 2 ^ 32)"

text \<open>The closed form \<open>n(n-1)/2\<close> of \<open>0 + 1 + ... + (n-1)\<close>.\<close>

definition closed_form :: "int \<Rightarrow> int" where
  "closed_form n = n * (n - 1) div 2"

section \<open>The execution policies\<close>

datatype ExecutionPolicy = seq | par | atomic | critical | par_reduce

section \<open>The loop \<open>for (T i = start; i < end; ++i)\<close>\<close>

lemma sint_range32: "- 2147483648 \<le> sint (w :: int32) \<and> sint w \<le> 2147483647"
  using sint_ge [of w] sint_lt [of w] by simp

lemma sint_incr_below:
  assumes "i <s (e :: int32)"
  shows "sint (i + 1) = sint i + 1"
proof -
  from assms have "sint i < sint e" by (simp add: word_sless_alt)
  moreover have "sint e \<le> 2147483647" using sint_range32 [of e] by simp
  ultimately have hi: "sint i + 1 \<le> 2147483647" by simp
  have lo: "- 2147483648 \<le> sint i + 1" using sint_range32 [of i] by simp
  have "sint (i + 1) = signed_take_bit 31 (sint i + 1)"
    by (simp add: sint_word_ariths)
  also from lo hi have "\<dots> = sint i + 1"
    by (simp add: signed_take_bit_int_eq_self)
  finally show ?thesis .
qed

text \<open>
  The sequential branch. The accumulator \<open>sum\<close> of the source is \<open>acc\<close> here and
  starts at 0; the loop variable runs from \<open>start\<close> while it is below \<open>end\<close> (here
  \<open>stop\<close>), and every round adds it to the accumulator. The loop variable never
  overflows, since it stays below \<open>end\<close>, so the loop always ends.
\<close>

function seq_loop :: "int32 \<Rightarrow> int32 \<Rightarrow> int32 \<Rightarrow> int32" where
  "seq_loop i stop acc = (if i <s stop then seq_loop (i + 1) stop (acc + i) else acc)"
  by pat_completeness auto
termination
  by (relation "measure (\<lambda>(i, stop, acc). nat (sint stop - sint i))")
     (auto simp: sint_incr_below word_sless_alt)

text \<open>
  The iteration space of the same loop header, which \<open>#pragma omp parallel for\<close>
  hands out to the threads of the team: the values the loop variable takes, in order.
\<close>

function iterations :: "int32 \<Rightarrow> int32 \<Rightarrow> int32 list" where
  "iterations i stop = (if i <s stop then i # iterations (i + 1) stop else [])"
  by pat_completeness auto
termination
  by (relation "measure (\<lambda>(i, stop). nat (sint stop - sint i))")
     (auto simp: sint_incr_below word_sless_alt)

declare seq_loop.simps [simp del] iterations.simps [simp del]

section \<open>The OpenMP runtime as a parameter\<close>

text \<open>
  What the runtime decides and the source does not: how many threads the team has, which
  thread executes which iteration, and which runnable thread takes the next step.
  A pick \<open>p\<close> selects, among the \<open>k\<close> threads that can take a step, the one at position
  \<open>p mod k\<close>; when the list of picks is used up the first runnable thread steps.
\<close>

record omp_env =
  num_threads :: nat
  owner :: "int32 \<Rightarrow> nat"
  picks :: "nat list"

definition distribute :: "omp_env \<Rightarrow> int32 list \<Rightarrow> int32 list list" where
  "distribute env its =
     map (\<lambda>t. filter (\<lambda>i. owner env i mod num_threads env = t) its) [0..<num_threads env]"

definition pick_thread :: "nat list \<Rightarrow> nat list \<Rightarrow> nat" where
  "pick_thread ps runnable = runnable ! ((case ps of [] \<Rightarrow> 0 | p # _ \<Rightarrow> p) mod length runnable)"

lemma pick_thread_in_set: "runnable \<noteq> [] \<Longrightarrow> pick_thread ps runnable \<in> set runnable"
  by (simp add: pick_thread_def)

subsection \<open>\<open>#pragma omp atomic\<close>\<close>

text \<open>
  Every thread holds the iterations it still has to run. A step is one indivisible
  \<open>sum += i\<close> of a runnable thread. The function returns after the join, when no thread
  has work left.
\<close>

definition has_work :: "int32 list list \<Rightarrow> nat list" where
  "has_work ws = filter (\<lambda>t. ws ! t \<noteq> []) [0..<length ws]"

lemma has_work_D: "t \<in> set (has_work ws) \<Longrightarrow> t < length ws \<and> ws ! t \<noteq> []"
  by (simp add: has_work_def)

lemma length_concat_pop:
  "t < length ws \<Longrightarrow> ws ! t \<noteq> [] \<Longrightarrow>
   length (concat (ws[t := tl (ws ! t)])) < length (concat ws)"
proof (induction ws arbitrary: t)
  case Nil
  then show ?case by simp
next
  case (Cons w ws)
  then show ?case by (cases t) auto
qed

function atomic_run :: "nat list \<Rightarrow> int32 list list \<Rightarrow> int32 \<Rightarrow> int32" where
  "atomic_run ps ws acc =
     (if has_work ws = [] then acc
      else let t = pick_thread ps (has_work ws)
           in atomic_run (tl ps) (ws[t := tl (ws ! t)]) (acc + hd (ws ! t)))"
  by pat_completeness auto
termination
proof (relation "measure (\<lambda>(ps, ws, acc). length (concat ws))")
  show "wf (measure (\<lambda>(ps, ws, acc). length (concat ws)))" by simp
next
  fix ps :: "nat list" and ws :: "int32 list list" and acc :: int32 and t
  assume "has_work ws \<noteq> []" and "t = pick_thread ps (has_work ws)"
  then have "t \<in> set (has_work ws)" by (simp add: pick_thread_in_set)
  then have "t < length ws \<and> ws ! t \<noteq> []" by (rule has_work_D)
  then show "((tl ps, ws[t := tl (ws ! t)], acc + hd (ws ! t)), (ps, ws, acc))
               \<in> measure (\<lambda>(ps, ws, acc). length (concat ws))"
    by (simp add: length_concat_pop)
qed

declare atomic_run.simps [simp del]

subsection \<open>\<open>#pragma omp critical\<close>\<close>

text \<open>
  The update is a load of \<open>sum\<close> followed by a store of the loaded value plus \<open>i\<close>,
  both inside the critical region. \<open>inside\<close> holds the iteration and the loaded value of
  the thread that is in the region; while it is set no other thread can enter, so the
  next step is that thread's store, which also leaves the region.
\<close>

function critical_run ::
  "nat list \<Rightarrow> int32 list list \<Rightarrow> (int32 \<times> int32) option \<Rightarrow> int32 \<Rightarrow> int32" where
  "critical_run ps ws inside acc =
     (case inside of
        Some (i, r) \<Rightarrow> critical_run ps ws None (r + i)
      | None \<Rightarrow>
          if has_work ws = [] then acc
          else let t = pick_thread ps (has_work ws)
               in critical_run (tl ps) (ws[t := tl (ws ! t)]) (Some (hd (ws ! t), acc)) acc)"
  by pat_completeness auto
termination
proof (relation "measure (\<lambda>(ps, ws, inside, acc).
         2 * length (concat ws) + (case inside of None \<Rightarrow> 0 | Some _ \<Rightarrow> 1))")
  fix ps :: "nat list" and ws :: "int32 list list" and inside :: "(int32 \<times> int32) option"
    and acc :: int32 and t
  assume "inside = None" and "has_work ws \<noteq> []" and "t = pick_thread ps (has_work ws)"
  then have "t \<in> set (has_work ws)" by (simp add: pick_thread_in_set)
  then have "t < length ws \<and> ws ! t \<noteq> []" by (rule has_work_D)
  then have "length (concat (ws[t := tl (ws ! t)])) < length (concat ws)"
    by (simp add: length_concat_pop)
  then show "((tl ps, ws[t := tl (ws ! t)], Some (hd (ws ! t), acc), acc), (ps, ws, inside, acc))
               \<in> measure (\<lambda>(ps, ws, inside, acc).
                    2 * length (concat ws) + (case inside of None \<Rightarrow> 0 | Some _ \<Rightarrow> 1))"
    by simp
qed auto

declare critical_run.simps [simp del]

subsection \<open>\<open>#pragma omp parallel for\<close> with no protection of \<open>sum\<close>\<close>

text \<open>
  The same load and store, with nothing between them that keeps the other threads out.
  A worker has the iterations it has not started yet and, between its load and its
  store, the iteration it is running together with the value of \<open>sum\<close> it loaded.
  A store writes the loaded value plus \<open>i\<close>, whatever \<open>sum\<close> holds by then. The
  language leaves the outcome of this race open; the model is the interleaving of the
  loads and stores of the threads.
\<close>

record worker =
  todo :: "int32 list"
  loaded :: "(int32 \<times> int32) option"

definition start_worker :: "int32 list \<Rightarrow> worker" where
  "start_worker w = \<lparr>todo = w, loaded = None\<rparr>"

definition steps_left :: "worker \<Rightarrow> nat" where
  "steps_left w = 2 * length (todo w) + (case loaded w of None \<Rightarrow> 0 | Some _ \<Rightarrow> 1)"

definition can_step :: "worker list \<Rightarrow> nat list" where
  "can_step ts = filter (\<lambda>t. steps_left (ts ! t) \<noteq> 0) [0..<length ts]"

definition racy_step :: "worker \<Rightarrow> int32 \<Rightarrow> worker \<times> int32" where
  "racy_step w acc =
     (case loaded w of
        Some (i, r) \<Rightarrow> (w\<lparr>loaded := None\<rparr>, r + i)
      | None \<Rightarrow>
          (case todo w of
             [] \<Rightarrow> (w, acc)
           | i # rest \<Rightarrow> (\<lparr>todo = rest, loaded = Some (i, acc)\<rparr>, acc)))"

lemma can_step_D: "t \<in> set (can_step ts) \<Longrightarrow> t < length ts \<and> steps_left (ts ! t) \<noteq> 0"
  by (simp add: can_step_def)

lemma racy_step_decreases:
  "steps_left w \<noteq> 0 \<Longrightarrow> steps_left (fst (racy_step w acc)) < steps_left w"
  by (auto simp: steps_left_def racy_step_def split: option.splits list.splits)

lemma steps_left_update:
  "t < length ts \<Longrightarrow> steps_left w < steps_left (ts ! t) \<Longrightarrow>
   sum_list (map steps_left (ts[t := w])) < sum_list (map steps_left ts)"
proof (induction ts arbitrary: t)
  case Nil
  then show ?case by simp
next
  case (Cons a ts)
  then show ?case by (cases t) auto
qed

function par_run :: "nat list \<Rightarrow> worker list \<Rightarrow> int32 \<Rightarrow> int32" where
  "par_run ps ts acc =
     (if can_step ts = [] then acc
      else let t = pick_thread ps (can_step ts)
           in par_run (tl ps) (ts[t := fst (racy_step (ts ! t) acc)])
                (snd (racy_step (ts ! t) acc)))"
  by pat_completeness auto
termination
proof (relation "measure (\<lambda>(ps, ts, acc). sum_list (map steps_left ts))")
  show "wf (measure (\<lambda>(ps, ts, acc). sum_list (map steps_left ts)))" by simp
next
  fix ps :: "nat list" and ts :: "worker list" and acc :: int32 and t
  assume "can_step ts \<noteq> []" and "t = pick_thread ps (can_step ts)"
  then have "t \<in> set (can_step ts)" by (simp add: pick_thread_in_set)
  then have t: "t < length ts" "steps_left (ts ! t) \<noteq> 0" by (simp_all add: can_step_D)
  from t(2) have "steps_left (fst (racy_step (ts ! t) acc)) < steps_left (ts ! t)"
    by (rule racy_step_decreases)
  with t(1) show "((tl ps, ts[t := fst (racy_step (ts ! t) acc)], snd (racy_step (ts ! t) acc)),
                   (ps, ts, acc)) \<in> measure (\<lambda>(ps, ts, acc). sum_list (map steps_left ts))"
    by (simp add: steps_left_update)
qed

declare par_run.simps [simp del]

subsection \<open>\<open>reduction(+ : sum)\<close>\<close>

text \<open>
  Every thread adds its iterations to a private copy of \<open>sum\<close> that starts at 0, the
  identity of \<open>+\<close>. At the end each thread's private copy is added once to the original
  \<open>sum\<close>, in the order the runtime picks.
\<close>

definition private_sum :: "int32 list \<Rightarrow> int32" where
  "private_sum w = foldl (\<lambda>priv i. priv + i) 0 w"

definition reduce_run :: "nat list \<Rightarrow> int32 list list \<Rightarrow> int32 \<Rightarrow> int32" where
  "reduce_run ps ws acc = atomic_run ps (map (\<lambda>w. [private_sum w]) ws) acc"

section \<open>The accumulation routine\<close>

text \<open>
  \<open>accumulate<int, policy>(start, end)\<close>: \<open>sum\<close> is initialised to 0, the branch of
  the policy runs, and \<open>sum\<close> is returned. The policy is a template argument in the
  source and an ordinary argument here; the runtime's choices are the argument \<open>env\<close>.
\<close>

definition accumulate :: "ExecutionPolicy \<Rightarrow> omp_env \<Rightarrow> int32 \<Rightarrow> int32 \<Rightarrow> int32" where
  "accumulate policy env start stop =
     (case policy of
        seq \<Rightarrow> seq_loop start stop 0
      | par \<Rightarrow>
          par_run (picks env) (map start_worker (distribute env (iterations start stop))) 0
      | atomic \<Rightarrow> atomic_run (picks env) (distribute env (iterations start stop)) 0
      | critical \<Rightarrow> critical_run (picks env) (distribute env (iterations start stop)) None 0
      | par_reduce \<Rightarrow> reduce_run (picks env) (distribute env (iterations start stop)) 0)"

section \<open>The timing harness\<close>

text \<open>
  A printed line carries the values given to \<open>std::format\<close>, not the formatted text:
  the label, the elapsed milliseconds and the sum of a timing line, and the ratio of a
  speedup line. The division \<open>fdiv a b\<close>, which stands for
  \<open>static_cast<double>(a) / b\<close>, is a parameter of \<open>accRatio\<close> and of \<open>main\<close>, and
  \<open>'d\<close> is its result type; \<open>ieee_div\<close> below is the division of IEEE 754.
\<close>

datatype 'd line = Timing string int int32 | Speedup 'd

text \<open>
  What \<open>main\<close> acts on: the wall clock (\<open>now w k\<close> is what the \<open>k\<close>-th reading of the
  clock returns, in milliseconds, and \<open>reads\<close> counts the readings taken so far), the
  choices of the OpenMP runtime in the parallel region of each policy, and the standard
  output.
\<close>

record 'd world =
  now :: "nat \<Rightarrow> int"
  reads :: nat
  omp :: "ExecutionPolicy \<Rightarrow> omp_env"
  stdout :: "'d line list"

text \<open>
  Modelled from the spec: \<open>TimeCounter.hpp\<close> is not among the sources. The spec describes
  it as a stopwatch with reset, start, stop and a query of the elapsed milliseconds.
  Here the stopwatch keeps the clock readings taken at start and at stop.
\<close>

record TimeCounter =
  started :: int
  stopped :: int

text \<open>Modelled from the spec: the reset of the stopwatch.\<close>

definition init :: "TimeCounter \<Rightarrow> TimeCounter" where
  "init tc = \<lparr>started = 0, stopped = 0\<rparr>"

text \<open>Modelled from the spec: the start of the stopwatch, which reads the clock.\<close>

definition startCounting :: "TimeCounter \<Rightarrow> 'd world \<Rightarrow> TimeCounter \<times> 'd world" where
  "startCounting tc w = (tc\<lparr>started := now w (reads w)\<rparr>, w\<lparr>reads := Suc (reads w)\<rparr>)"

text \<open>Modelled from the spec: the stop of the stopwatch, which reads the clock.\<close>

definition endCounting :: "TimeCounter \<Rightarrow> 'd world \<Rightarrow> TimeCounter \<times> 'd world" where
  "endCounting tc w = (tc\<lparr>stopped := now w (reads w)\<rparr>, w\<lparr>reads := Suc (reads w)\<rparr>)"

text \<open>
  Modelled from the spec: the elapsed milliseconds, the difference of the two readings.
\<close>

definition msecond :: "TimeCounter \<Rightarrow> int" where
  "msecond tc = stopped tc - started tc"

text \<open>\<open>std::cout << std::format(...)\<close> appends a line to the output.\<close>

definition print :: "'d line \<Rightarrow> 'd world \<Rightarrow> 'd world" where
  "print l w = w\<lparr>stdout := stdout w @ [l]\<rparr>"

text \<open>\<open>std::numeric_limits<int>::max()\<close> and the bound \<open>n\<close> of \<open>main\<close>.\<close>

definition int_max :: int32 where
  "int_max = 2147483647"

definition main_n :: int32 where
  "main_n = signed_drop_bit 3 int_max"

text \<open>
  The lambda \<open>accRatio\<close> of \<open>main\<close>: the origin time, cast to \<open>double\<close>, divided by
  the target time. Nothing is checked before the division.
\<close>

definition accRatio :: "(int \<Rightarrow> int \<Rightarrow> 'd) \<Rightarrow> int \<Rightarrow> int \<Rightarrow> 'd" where
  "accRatio fdiv originTime targetTime = fdiv originTime targetTime"

text \<open>
  \<open>main\<close>, statement by statement. It takes no arguments; the result is the exit
  code and the world after the run. The stopwatch is default-constructed and reset
  before every use.
\<close>

definition main :: "(int \<Rightarrow> int \<Rightarrow> 'd) \<Rightarrow> 'd world \<Rightarrow> int \<times> 'd world" where
  "main fdiv w0 =
     (let timeCounter = \<lparr>started = 0, stopped = 0\<rparr>;
          n = main_n;
          \<comment> \<open>Serial.\<close>
          timeCounter = init timeCounter;
          (timeCounter, w) = startCounting timeCounter w0;
          sum = accumulate seq (omp w seq) 0 n;
          (timeCounter, w) = endCounting timeCounter w;
          w = print (Timing ''Serial:'' (msecond timeCounter) sum) w;
          serialTime = msecond timeCounter;
          \<comment> \<open>OpenMP.\<close>
          timeCounter = init timeCounter;
          (timeCounter, w) = startCounting timeCounter w;
          sum = accumulate par (omp w par) 0 n;
          (timeCounter, w) = endCounting timeCounter w;
          w = print (Timing ''OpenMP:'' (msecond timeCounter) sum) w;
          w = print (Speedup (accRatio fdiv serialTime (msecond timeCounter))) w;
          \<comment> \<open>OpenMP atomic.\<close>
          timeCounter = init timeCounter;
          (timeCounter, w) = startCounting timeCounter w;
          sum = accumulate atomic (omp w atomic) 0 n;
          (timeCounter, w) = endCounting timeCounter w;
          w = print (Timing ''OpenMP atomic:'' (msecond timeCounter) sum) w;
          w = print (Speedup (accRatio fdiv serialTime (msecond timeCounter))) w;
          \<comment> \<open>OpenMP critical.\<close>
          timeCounter = init timeCounter;
          (timeCounter, w) = startCounting timeCounter w;
          sum = accumulate critical (omp w critical) 0 n;
          (timeCounter, w) = endCounting timeCounter w;
          w = print (Timing ''OpenMP critical:'' (msecond timeCounter) sum) w;
          w = print (Speedup (accRatio fdiv serialTime (msecond timeCounter))) w;
          \<comment> \<open>OpenMP reduce.\<close>
          timeCounter = init timeCounter;
          (timeCounter, w) = startCounting timeCounter w;
          sum = accumulate par_reduce (omp w par_reduce) 0 n;
          (timeCounter, w) = endCounting timeCounter w;
          w = print (Timing ''OpenMP reduce:'' (msecond timeCounter) sum) w;
          w = print (Speedup (accRatio fdiv serialTime (msecond timeCounter))) w
      in (0, w))"

text \<open>The elapsed time of the \<open>k\<close>-th timed call (counted from 0) of a run that starts in \<open>w\<close>.\<close>

definition elapsed :: "'d world \<Rightarrow> nat \<Rightarrow> int" where
  "elapsed w k = now w (reads w + 2 * k + 1) - now w (reads w + 2 * k)"

text \<open>The sums a run prints, as the signed decimals that \<open>{}\<close> formats.\<close>

fun printed_sums :: "'d line list \<Rightarrow> int list" where
  "printed_sums [] = []"
| "printed_sums (Timing l ms v # ls) = sint v # printed_sums ls"
| "printed_sums (Speedup r # ls) = printed_sums ls"

text \<open>The ratios a run prints, in the order of the speedup lines.\<close>

fun printed_speedups :: "'d line list \<Rightarrow> 'd list" where
  "printed_speedups [] = []"
| "printed_speedups (Timing l ms v # ls) = printed_speedups ls"
| "printed_speedups (Speedup r # ls) = r # printed_speedups ls"

section \<open>The quotient of two \<open>double\<close>s\<close>

text \<open>
  The division \<open>static_cast<double>(originTime) / targetTime\<close> in IEEE 754 arithmetic,
  as far as the kind of its result goes. The result is a finite number, plus or minus
  infinity, or not a number. A divisor other than zero gives a finite quotient, which
  is kept as its two operands (the rounding is not modelled; the elapsed milliseconds
  are integers here). Division by zero raises nothing: a positive dividend gives plus
  infinity, a negative one minus infinity, and zero by zero is not a number.
\<close>

datatype double_quotient = Finite int int | PosInf | NegInf | NaN

definition ieee_div :: "int \<Rightarrow> int \<Rightarrow> double_quotient" where
  "ieee_div a b =
     (if b = 0 then (if a = 0 then NaN else if 0 < a then PosInf else NegInf)
      else Finite a b)"

fun is_finite :: "double_quotient \<Rightarrow> bool" where
  "is_finite (Finite a b) = True"
| "is_finite PosInf = False"
| "is_finite NegInf = False"
| "is_finite NaN = False"

section \<open>Concrete runtimes\<close>

text \<open>
  A team of one thread, and a team of two threads in which the iterations go round
  robin (\<open>0\<close> and \<open>2\<close> to thread 0, \<open>1\<close> to thread 1) and the picks let thread 1
  load \<open>sum\<close> first and store last.
\<close>

definition one_thread :: omp_env where
  "one_thread = \<lparr>num_threads = 1, owner = (\<lambda>i. 0), picks = []\<rparr>"

definition two_threads :: omp_env where
  "two_threads = \<lparr>num_threads = 2, owner = unat, picks = [1, 0, 0, 0, 0, 1]\<rparr>"

text \<open>
  A world whose clock advances by one millisecond per reading, whose runtime gives
  every parallel region the team of two threads, and whose output is still empty;
  and a division that keeps its two operands.
\<close>

definition ticking_world :: "(int \<times> int) world" where
  "ticking_world = \<lparr>now = int, reads = 0, omp = (\<lambda>policy. two_threads), stdout = []\<rparr>"

definition operands :: "int \<Rightarrow> int \<Rightarrow> int \<times> int" where
  "operands a b = (a, b)"

text \<open>
  A world whose clock advances by one millisecond per reading up to the ninth reading
  and then stands still, so that the last timed call, the reduction, measures 0 ms.
\<close>

definition stalling_world :: "double_quotient world" where
  "stalling_world =
     \<lparr>now = (\<lambda>k. if k < 9 then int k else 8), reads = 0,
      omp = (\<lambda>policy. two_threads), stdout = []\<rparr>"

section \<open>Quantities for reasoning about the unprotected update\<close>

text \<open>
  The iterations of a worker whose store has not happened yet, the value a worker holds
  between its load and its store, the total still owed by all workers, and the
  invariant of a racy run: no iteration is negative, and every value that a store can
  still write, increased by what is owed, stays within the bound \<open>B\<close>.
\<close>

definition unstored :: "worker \<Rightarrow> int32 list" where
  "unstored w = (case loaded w of None \<Rightarrow> [] | Some (i, r) \<Rightarrow> [i]) @ todo w"

definition held :: "worker \<Rightarrow> int32 list" where
  "held w = (case loaded w of None \<Rightarrow> [] | Some (i, r) \<Rightarrow> [r])"

definition owed :: "worker list \<Rightarrow> int" where
  "owed ts = sum_list (map sint (concat (map unstored ts)))"

definition within :: "int \<Rightarrow> worker list \<Rightarrow> int32 \<Rightarrow> bool" where
  "within B ts acc =
     (list_all (\<lambda>i. 0 \<le> sint i) (concat (map unstored ts)) \<and>
      list_all (\<lambda>v. 0 \<le> sint v \<and> sint v + owed ts \<le> B) (acc # concat (map held ts)))"

section \<open>What the sequential loop computes\<close>

lemma seq_loop_sum_list: "seq_loop i stop acc = acc + sum_list (iterations i stop)"
proof (induction i stop acc rule: seq_loop.induct)
  case (1 i stop acc)
  show ?case
  proof (cases "i <s stop")
    case True
    then have "seq_loop i stop acc = seq_loop (i + 1) stop (acc + i)"
      by (subst seq_loop.simps) simp
    also have "\<dots> = (acc + i) + sum_list (iterations (i + 1) stop)"
      using "1.IH" True by simp
    also have "\<dots> = acc + sum_list (iterations i stop)"
      using True by (subst (2) iterations.simps) (simp add: add.assoc)
    finally show ?thesis .
  next
    case False
    then show ?thesis
      by (subst seq_loop.simps, subst iterations.simps) simp
  qed
qed

lemma iterations_upto: "iterations i stop = map word_of_int [sint i..sint stop - 1]"
proof (induction i stop rule: iterations.induct)
  case (1 i stop)
  show ?case
  proof (cases "i <s stop")
    case True
    then have lt: "sint i < sint stop" by (simp add: word_sless_alt)
    have "iterations i stop = i # iterations (i + 1) stop"
      using True by (subst iterations.simps) simp
    also have "\<dots> = i # map word_of_int [sint i + 1..sint stop - 1]"
      using "1.IH" True by (simp add: sint_incr_below)
    also have "\<dots> = map word_of_int [sint i..sint stop - 1]"
      using lt by (subst (2) upto_rec1) simp_all
    finally show ?thesis .
  next
    case False
    then have "\<not> sint i < sint stop" by (simp add: word_sless_alt)
    then show ?thesis using False
      by (subst iterations.simps) simp
  qed
qed

lemma sum_list_word_of_int:
  "sum_list (map word_of_int xs) = (word_of_int (sum_list xs) :: int32)"
  by (induction xs) simp_all

lemma sum_list_iterations:
  "sum_list (iterations i stop) = word_of_int (\<Sum>k = sint i..sint stop - 1. k)"
  by (simp add: iterations_upto sum_list_word_of_int interv_sum_list_conv_sum_set_int)

lemma wrap_half:
  fixes x k :: int
  assumes "0 < k"
  shows "(x + k) mod (2 * k) - k
           = (if x mod (2 * k) < k then x mod (2 * k) else x mod (2 * k) - 2 * k)"
proof -
  define m where "m = x mod (2 * k)"
  have m: "0 \<le> m" "m < 2 * k" using assms by (simp_all add: m_def)
  have shift: "(x + k) mod (2 * k) = (m + k) mod (2 * k)"
    by (simp add: m_def mod_add_left_eq)
  show ?thesis
  proof (cases "m < k")
    case True
    with m have "(m + k) mod (2 * k) = m + k" by (intro mod_pos_pos_trivial) simp_all
    with True shift show ?thesis by (simp add: m_def)
  next
    case False
    have "(m + k) mod (2 * k) = (m + k - 2 * k) mod (2 * k)"
      by (simp only: minus_mod_self2)
    also from False m have "\<dots> = m + k - 2 * k" by (intro mod_pos_pos_trivial) simp_all
    finally show ?thesis using False shift by (simp add: m_def)
  qed
qed

lemma sint_word_of_int32: "sint (word_of_int x :: int32) = to_int32 x"
proof -
  have "sint (word_of_int x :: int32) = signed_take_bit 31 x"
    by (simp add: sint_sbintrunc')
  also have "\<dots> = (x + 2 ^ 31) mod (2 * 2 ^ 31) - 2 ^ 31"
    by (simp add: signed_take_bit_eq_take_bit_shift take_bit_eq_mod)
  also have "\<dots> = to_int32 x"
    unfolding to_int32_def Let_def using wrap_half [of "2 ^ 31" x] by simp
  finally show ?thesis .
qed

lemma sum_from_zero: "0 \<le> n \<Longrightarrow> (\<Sum>k = 0..n - 1. k) = closed_form n"
  unfolding closed_form_def
  using Sum_Icc_int [of 0 "n - 1"] by (cases "n = 0") (simp_all add: algebra_simps)

section \<open>The threads share out the iteration space\<close>

lemma mset_concat_route:
  "distinct ts \<Longrightarrow> a \<in> set ts \<Longrightarrow>
   mset (concat (map (\<lambda>t. if a = t then x # g t else g t) ts))
     = add_mset x (mset (concat (map g ts)))"
proof (induction ts)
  case Nil
  then show ?case by simp
next
  case (Cons t ts)
  show ?case
  proof (cases "a = t")
    case True
    with Cons.prems have "t \<notin> set ts" by simp
    then have same: "map (\<lambda>s. if t = s then x # g s else g s) ts = map g ts"
      by (intro map_cong) auto
    show ?thesis using True by (simp add: same)
  next
    case False
    with Cons show ?thesis by simp
  qed
qed

lemma mset_concat_distribute:
  assumes "0 < num_threads env"
  shows "mset (concat (distribute env its)) = mset its"
proof (induction its)
  case Nil
  then show ?case by (simp add: distribute_def)
next
  case (Cons x its)
  let ?k = "num_threads env"
  let ?a = "owner env x mod ?k"
  let ?g = "\<lambda>t. filter (\<lambda>i. owner env i mod ?k = t) its"
  have a: "?a \<in> set [0..<?k]" using assms by simp
  have "distribute env (x # its) = map (\<lambda>t. if ?a = t then x # ?g t else ?g t) [0..<?k]"
    by (simp add: distribute_def)
  then have "mset (concat (distribute env (x # its)))
               = add_mset x (mset (concat (map ?g [0..<?k])))"
    using mset_concat_route [OF distinct_upt a] by simp
  also have "map ?g [0..<?k] = distribute env its" by (simp add: distribute_def)
  finally show ?case using Cons.IH by simp
qed

section \<open>The protected policies add up every iteration once\<close>

lemma sum_list_concat_pop:
  "t < length ws \<Longrightarrow> ws ! t \<noteq> [] \<Longrightarrow>
   hd (ws ! t) + sum_list (concat (ws[t := tl (ws ! t)])) = sum_list (concat (ws :: int32 list list))"
proof (induction ws arbitrary: t)
  case Nil
  then show ?case by simp
next
  case (Cons w ws)
  show ?case
  proof (cases t)
    case 0
    with Cons.prems show ?thesis by (cases w) simp_all
  next
    case (Suc u)
    with Cons.prems have "hd (ws ! u) + sum_list (concat (ws[u := tl (ws ! u)])) = sum_list (concat ws)"
      by (intro Cons.IH) simp_all
    with Suc show ?thesis by (simp add: add.left_commute)
  qed
qed

lemma has_work_Nil: "has_work ws = [] \<Longrightarrow> concat ws = []"
  by (auto simp: has_work_def filter_empty_conv in_set_conv_nth)

lemma atomic_run_sum_list: "atomic_run ps ws acc = acc + sum_list (concat ws)"
proof (induction ps ws acc rule: atomic_run.induct)
  case (1 ps ws acc)
  show ?case
  proof (cases "has_work ws = []")
    case True
    then show ?thesis by (subst atomic_run.simps) (simp add: has_work_Nil)
  next
    case False
    define t where "t = pick_thread ps (has_work ws)"
    from False have "t \<in> set (has_work ws)" by (simp add: t_def pick_thread_in_set)
    then have t: "t < length ws" "ws ! t \<noteq> []" by (simp_all add: has_work_D)
    have "atomic_run ps ws acc = atomic_run (tl ps) (ws[t := tl (ws ! t)]) (acc + hd (ws ! t))"
      using False by (subst atomic_run.simps) (simp add: t_def Let_def)
    also have "\<dots> = (acc + hd (ws ! t)) + sum_list (concat (ws[t := tl (ws ! t)]))"
      using "1.IH" [OF False t_def] .
    also have "\<dots> = acc + sum_list (concat ws)"
      using sum_list_concat_pop [OF t] by (simp add: add.assoc)
    finally show ?thesis .
  qed
qed

lemma critical_run_store:
  "critical_run ps ws (Some (i, r)) acc = critical_run ps ws None (r + i)"
  by (subst critical_run.simps) simp

lemma critical_run_done:
  "has_work ws = [] \<Longrightarrow> critical_run ps ws None acc = acc"
  by (subst critical_run.simps) simp

lemma critical_run_enter:
  "has_work ws \<noteq> [] \<Longrightarrow> t = pick_thread ps (has_work ws) \<Longrightarrow>
   critical_run ps ws None acc
     = critical_run (tl ps) (ws[t := tl (ws ! t)]) (Some (hd (ws ! t), acc)) acc"
  by (subst critical_run.simps) (simp add: Let_def)

lemma critical_run_sum_list:
  "critical_run ps ws inside acc =
     (case inside of None \<Rightarrow> acc | Some (i, r) \<Rightarrow> r + i) + sum_list (concat ws)"
proof (induction ps ws inside acc rule: critical_run.induct)
  case (1 ps ws inside acc)
  show ?case
  proof (cases inside)
    case (Some ir)
    obtain i r where ir: "ir = (i, r)" by (cases ir)
    have "critical_run ps ws None (r + i) = (r + i) + sum_list (concat ws)"
      using "1.IH"(2) [OF Some ir [symmetric]] by simp
    then show ?thesis using Some ir by (simp add: critical_run_store)
  next
    case None
    show ?thesis
    proof (cases "has_work ws = []")
      case True
      with None show ?thesis by (simp add: critical_run_done has_work_Nil)
    next
      case False
      define t where "t = pick_thread ps (has_work ws)"
      from False have "t \<in> set (has_work ws)" by (simp add: t_def pick_thread_in_set)
      then have t: "t < length ws" "ws ! t \<noteq> []" by (simp_all add: has_work_D)
      have "critical_run ps ws None acc
              = critical_run (tl ps) (ws[t := tl (ws ! t)]) (Some (hd (ws ! t), acc)) acc"
        using False t_def by (rule critical_run_enter)
      also have "\<dots> = (acc + hd (ws ! t)) + sum_list (concat (ws[t := tl (ws ! t)]))"
        using "1.IH"(1) [OF None False t_def] by simp
      also have "\<dots> = acc + sum_list (concat ws)"
        using sum_list_concat_pop [OF t] by (simp add: add.assoc)
      finally show ?thesis using None by simp
    qed
  qed
qed

lemma private_sum_sum_list: "private_sum w = sum_list w"
proof -
  have "foldl (\<lambda>priv i. priv + i) a w = a + sum_list w" for a :: int32
    by (induction w arbitrary: a) (simp_all add: add.assoc)
  then show ?thesis by (simp add: private_sum_def)
qed

lemma reduce_run_sum_list: "reduce_run ps ws acc = acc + sum_list (concat ws)"
proof -
  have "sum_list (concat (map (\<lambda>w. [private_sum w]) ws)) = sum_list (concat ws)"
    by (induction ws) (simp_all add: private_sum_sum_list)
  then show ?thesis by (simp add: reduce_run_def atomic_run_sum_list)
qed

lemma sum_list_concat_distribute:
  "0 < num_threads env \<Longrightarrow> sum_list (concat (distribute env its)) = sum_list its"
  using mset_concat_distribute [of env its] by (metis sum_mset_sum_list)

lemma concat_distribute_Nil: "concat (distribute env []) = []"
  by (simp add: distribute_def)

lemma accumulate_protected:
  assumes "policy \<noteq> par" and "0 < num_threads env"
  shows "accumulate policy env start stop = sum_list (iterations start stop)"
  using assms
  by (cases policy)
     (simp_all add: accumulate_def seq_loop_sum_list atomic_run_sum_list
        critical_run_sum_list reduce_run_sum_list sum_list_concat_distribute)

lemma sint_accumulate_protected:
  assumes "policy \<noteq> par" and "0 < num_threads env"
  shows "sint (accumulate policy env start stop) = to_int32 (\<Sum> {sint start..<sint stop})"
proof -
  have "{sint start..sint stop - 1} = {sint start..<sint stop}" by auto
  then have "sum_list (iterations start stop) = word_of_int (\<Sum> {sint start..<sint stop})"
    by (simp only: sum_list_iterations)
  then have "accumulate policy env start stop = word_of_int (\<Sum> {sint start..<sint stop})"
    using accumulate_protected [OF assms, of start stop] by simp
  then show ?thesis by (simp only: sint_word_of_int32)
qed

section \<open>When the sum fits in an \<open>int\<close>\<close>

lemma to_int32_id:
  assumes "- 2147483648 \<le> x" and "x \<le> 2147483647"
  shows "to_int32 x = x"
proof (cases "0 \<le> x")
  case True
  with assms have "x mod 2 ^ 32 = x" by (intro mod_pos_pos_trivial) simp_all
  with assms show ?thesis by (simp add: to_int32_def Let_def)
next
  case False
  have "x mod 2 ^ 32 = (x + 2 ^ 32) mod 2 ^ 32" by simp
  also from assms False have "\<dots> = x + 2 ^ 32" by (intro mod_pos_pos_trivial) simp_all
  finally show ?thesis using False assms by (simp add: to_int32_def Let_def)
qed

lemma sum_below: "0 \<le> n \<Longrightarrow> \<Sum> {0..<n} = closed_form n"
proof -
  assume "0 \<le> n"
  then have "(\<Sum>k = 0..n - 1. k) = closed_form n" by (rule sum_from_zero)
  moreover have "{0..n - 1} = {0..<n}" by auto
  ultimately show ?thesis by simp
qed

lemma closed_form_small:
  "0 \<le> n \<Longrightarrow> n \<le> 65536 \<Longrightarrow> 0 \<le> closed_form n \<and> closed_form n \<le> 2147450880"
proof -
  assume n: "0 \<le> n" "n \<le> 65536"
  show ?thesis
  proof (cases "n = 0")
    case True
    then show ?thesis by (simp add: closed_form_def)
  next
    case False
    with n have "n * (n - 1) \<le> 65536 * 65535" by (intro mult_mono) simp_all
    moreover from False n have "0 \<le> n * (n - 1)" by simp
    ultimately show ?thesis by (simp add: closed_form_def)
  qed
qed

lemma closed_form_large: "65537 \<le> n \<Longrightarrow> 2147516416 \<le> closed_form n"
proof -
  assume n: "65537 \<le> n"
  then have "65537 * 65536 \<le> n * (n - 1)" by (intro mult_mono) simp_all
  then show ?thesis by (simp add: closed_form_def)
qed

section \<open>What a run of \<open>main\<close> prints\<close>

lemma main_run:
  "main fdiv w =
     (0, w\<lparr>reads := reads w + 10,
           stdout := stdout w @
             [Timing ''Serial:'' (elapsed w 0) (accumulate seq (omp w seq) 0 main_n),
              Timing ''OpenMP:'' (elapsed w 1) (accumulate par (omp w par) 0 main_n),
              Speedup (fdiv (elapsed w 0) (elapsed w 1)),
              Timing ''OpenMP atomic:'' (elapsed w 2) (accumulate atomic (omp w atomic) 0 main_n),
              Speedup (fdiv (elapsed w 0) (elapsed w 2)),
              Timing ''OpenMP critical:'' (elapsed w 3) (accumulate critical (omp w critical) 0 main_n),
              Speedup (fdiv (elapsed w 0) (elapsed w 3)),
              Timing ''OpenMP reduce:'' (elapsed w 4) (accumulate par_reduce (omp w par_reduce) 0 main_n),
              Speedup (fdiv (elapsed w 0) (elapsed w 4))]\<rparr>)"
  by (simp add: main_def Let_def init_def startCounting_def endCounting_def msecond_def
        print_def accRatio_def elapsed_def eval_nat_numeral)

section \<open>The unprotected update never exceeds the closed form\<close>

lemma sint_add_small:
  assumes "0 \<le> sint a" and "0 \<le> sint b" and "sint a + sint b \<le> 2147483647"
  shows "sint (a + b :: int32) = sint a + sint b"
proof -
  have "sint (a + b) = signed_take_bit 31 (sint a + sint b)"
    by (simp add: sint_word_ariths)
  also from assms have "\<dots> = sint a + sint b"
    by (simp add: signed_take_bit_int_eq_self)
  finally show ?thesis .
qed

lemma sum_list_sint_nonneg:
  "list_all (\<lambda>i. 0 \<le> sint i) xs \<Longrightarrow> 0 \<le> sum_list (map sint (xs :: int32 list))"
  by (induction xs) simp_all

lemma owed_nonneg:
  "list_all (\<lambda>i. 0 \<le> sint i) (concat (map unstored ts)) \<Longrightarrow> 0 \<le> owed ts"
  unfolding owed_def by (rule sum_list_sint_nonneg)

lemma within_step:
  assumes inv: "within B ts acc" and B: "B \<le> 2147483647"
    and t: "t < length ts" "steps_left (ts ! t) \<noteq> 0"
  shows "within B (ts[t := fst (racy_step (ts ! t) acc)]) (snd (racy_step (ts ! t) acc))"
proof -
  define w where "w = ts ! t"
  define pre where "pre = take t ts"
  define post where "post = drop (Suc t) ts"
  have ts: "ts = pre @ w # post"
    using t(1) by (simp add: pre_def post_def w_def id_take_nth_drop)
  have upd: "ts[t := x] = pre @ x # post" for x
    using t(1) by (simp add: pre_def post_def upd_conv_take_nth_drop)
  show ?thesis
  proof (cases "loaded w")
    case None
    with t(2) obtain i rest where todo: "todo w = i # rest"
      by (cases "todo w") (auto simp: steps_left_def w_def)
    have step: "racy_step w acc = (\<lparr>todo = rest, loaded = Some (i, acc)\<rparr>, acc)"
      using None todo by (simp add: racy_step_def)
    show ?thesis
      using inv None todo unfolding w_def [symmetric] step upd
      by (auto simp: within_def ts owed_def unstored_def held_def)
  next
    case (Some ir)
    obtain i r where ir: "ir = (i, r)" by (cases ir)
    define w' where "w' = w\<lparr>loaded := None\<rparr>"
    define ts' where "ts' = pre @ w' # post"
    have step: "racy_step w acc = (w', r + i)"
      using Some ir by (simp add: racy_step_def w'_def)
    have U: "concat (map unstored ts)
               = concat (map unstored pre) @ i # todo w @ concat (map unstored post)"
      using Some ir by (simp add: ts unstored_def)
    have U': "concat (map unstored ts')
               = concat (map unstored pre) @ todo w @ concat (map unstored post)"
      by (simp add: ts'_def w'_def unstored_def)
    have H: "concat (map held ts) = concat (map held pre) @ r # concat (map held post)"
      using Some ir by (simp add: ts held_def)
    have H': "concat (map held ts') = concat (map held pre) @ concat (map held post)"
      by (simp add: ts'_def w'_def held_def)
    have nonneg: "list_all (\<lambda>i. 0 \<le> sint i) (concat (map unstored ts))"
      using inv by (simp add: within_def)
    then have i0: "0 \<le> sint i" and nonneg': "list_all (\<lambda>i. 0 \<le> sint i) (concat (map unstored ts'))"
      by (simp_all add: U U')
    have owed: "owed ts = sint i + owed ts'"
      by (simp add: owed_def U U')
    have owed0: "0 \<le> owed ts'" using nonneg' by (rule owed_nonneg)
    have bounds: "list_all (\<lambda>v. 0 \<le> sint v \<and> sint v + owed ts \<le> B) (concat (map held ts))"
      using inv by (simp add: within_def)
    then have r0: "0 \<le> sint r" and rB: "sint r + owed ts \<le> B"
      by (simp_all add: H)
    from bounds have "list_all (\<lambda>v. 0 \<le> sint v \<and> sint v + owed ts' \<le> B) (concat (map held ts))"
      using owed i0 by (fastforce simp: list_all_iff)
    then have bounds': "list_all (\<lambda>v. 0 \<le> sint v \<and> sint v + owed ts' \<le> B) (concat (map held ts'))"
      by (simp add: H H')
    have "sint r + sint i \<le> 2147483647" using rB owed owed0 B by simp
    with r0 i0 have add: "sint (r + i) = sint r + sint i" by (rule sint_add_small)
    have "within B ts' (r + i)"
      using nonneg' bounds' add r0 i0 rB owed by (simp add: within_def)
    then show ?thesis
      unfolding w_def [symmetric] step upd by (simp add: ts'_def)
  qed
qed

lemma can_step_Nil: "can_step ts = [] \<Longrightarrow> t < length ts \<Longrightarrow> steps_left (ts ! t) = 0"
  by (auto simp: can_step_def filter_empty_conv)

lemma par_run_within:
  "within B ts acc \<Longrightarrow> B \<le> 2147483647 \<Longrightarrow> sint (par_run ps ts acc) \<le> B"
proof (induction ps ts acc rule: par_run.induct)
  case (1 ps ts acc)
  show ?case
  proof (cases "can_step ts = []")
    case True
    have "0 \<le> owed ts" using "1.prems"(1) by (intro owed_nonneg) (simp add: within_def)
    moreover have "sint acc + owed ts \<le> B" using "1.prems"(1) by (simp add: within_def)
    ultimately show ?thesis using True by (subst par_run.simps) simp
  next
    case False
    define t where "t = pick_thread ps (can_step ts)"
    from False have "t \<in> set (can_step ts)" by (simp add: t_def pick_thread_in_set)
    then have t: "t < length ts" "steps_left (ts ! t) \<noteq> 0" by (simp_all add: can_step_D)
    have "within B (ts[t := fst (racy_step (ts ! t) acc)]) (snd (racy_step (ts ! t) acc))"
      using "1.prems" t by (rule within_step)
    then have "sint (par_run (tl ps) (ts[t := fst (racy_step (ts ! t) acc)])
                 (snd (racy_step (ts ! t) acc))) \<le> B"
      using "1.IH" [OF False t_def] "1.prems"(2) by simp
    then show ?thesis
      using False by (subst par_run.simps) (simp add: t_def Let_def)
  qed
qed

lemma unstored_start: "concat (map unstored (map start_worker ws)) = concat ws"
  by (induction ws) (simp_all add: unstored_def start_worker_def)

lemma held_start: "concat (map held (map start_worker ws)) = []"
  by (induction ws) (simp_all add: held_def start_worker_def)

lemma can_step_start_Nil: "concat ws = [] \<Longrightarrow> can_step (map start_worker ws) = []"
  by (auto simp: can_step_def filter_empty_conv steps_left_def start_worker_def)

lemma par_run_no_work: "concat ws = [] \<Longrightarrow> par_run ps (map start_worker ws) acc = acc"
  by (subst par_run.simps) (simp add: can_step_start_Nil)

lemma sint_iterations_from_zero:
  assumes "0 \<le> sint n"
  shows "map sint (iterations 0 n) = [0..sint n - 1]"
proof -
  have "sint (word_of_int k :: int32) = k" if "k \<in> set [0..sint n - 1]" for k
  proof -
    from that have "0 \<le> k" "k \<le> 2147483647" using sint_range32 [of n] by simp_all
    then show ?thesis by (simp only: sint_word_of_int32) (simp add: to_int32_id)
  qed
  then have "map (\<lambda>k. sint (word_of_int k :: int32)) [0..sint n - 1] = [0..sint n - 1]"
    by (intro map_idI) simp
  then show ?thesis by (simp add: iterations_upto comp_def)
qed

lemma iterations_empty: "sint stop \<le> sint start \<Longrightarrow> iterations start stop = []"
  by (simp add: iterations_upto)

lemma closed_form_nonneg: "0 \<le> closed_form n"
proof -
  have "0 \<le> n * (n - 1)"
  proof (cases "1 \<le> n")
    case True
    then show ?thesis by simp
  next
    case False
    then have "n \<le> 0" "n - 1 \<le> 0" by simp_all
    then show ?thesis by (rule mult_nonpos_nonpos)
  qed
  then show ?thesis by (simp add: closed_form_def)
qed

lemma within_start:
  assumes n: "0 \<le> sint n" and k: "0 < num_threads env"
  shows "within (closed_form (sint n))
           (map start_worker (distribute env (iterations 0 n))) 0"
proof -
  let ?its = "iterations 0 n"
  let ?ws = "distribute env ?its"
  have ms: "mset (concat ?ws) = mset ?its" using k by (rule mset_concat_distribute)
  have "sum_list (map sint (concat ?ws)) = sum_mset (image_mset sint (mset (concat ?ws)))"
    by (metis mset_map sum_mset_sum_list)
  also have "\<dots> = sum_list (map sint ?its)"
    unfolding ms by (metis mset_map sum_mset_sum_list)
  also have "\<dots> = closed_form (sint n)"
    using n by (simp add: sint_iterations_from_zero interv_sum_list_conv_sum_set_int [of "\<lambda>k. k", simplified] sum_from_zero)
  finally have owed: "owed (map start_worker ?ws) = closed_form (sint n)"
    unfolding owed_def unstored_start .
  have "list_all (\<lambda>k. 0 \<le> k) (map sint ?its)"
    using n by (simp add: sint_iterations_from_zero list_all_iff)
  then have "list_all (\<lambda>i. 0 \<le> sint i) ?its" by (simp add: list_all_iff)
  moreover have "set (concat ?ws) = set ?its" using ms by (rule mset_eq_setD)
  ultimately have "list_all (\<lambda>i. 0 \<le> sint i) (concat ?ws)" by (simp add: list_all_iff)
  then show ?thesis
    unfolding within_def unstored_start held_start owed
    by (simp add: closed_form_nonneg)
qed

lemma par_bounded: "sint (accumulate par env 0 n) \<le> closed_form (sint n)"
proof -
  consider (empty) "sint n \<le> 0 \<or> num_threads env = 0"
    | (small) "1 \<le> sint n" "sint n \<le> 65536" "0 < num_threads env"
    | (large) "65537 \<le> sint n"
    by linarith
  then show ?thesis
  proof cases
    case empty
    then have "concat (distribute env (iterations 0 n)) = []"
      by (auto simp: iterations_empty distribute_def)
    then have "accumulate par env 0 n = 0"
      by (simp add: accumulate_def par_run_no_work)
    then show ?thesis by (simp add: closed_form_nonneg)
  next
    case small
    then have "closed_form (sint n) \<le> 2147483647"
      using closed_form_small [of "sint n"] by simp
    moreover have "within (closed_form (sint n))
        (map start_worker (distribute env (iterations 0 n))) 0"
      using small by (intro within_start) simp_all
    ultimately show ?thesis
      by (simp add: accumulate_def par_run_within)
  next
    case large
    then have "2147516416 \<le> closed_form (sint n)" by (rule closed_form_large)
    moreover have "sint (accumulate par env 0 n) \<le> 2147483647"
      using sint_range32 [of "accumulate par env 0 n"] by simp
    ultimately show ?thesis by simp
  qed
qed

section \<open>The claims\<close>

lemma accumulate_seq: "accumulate seq env start stop = sum_list (iterations start stop)"
  by (simp add: accumulate_def seq_loop_sum_list)

lemma sint_accumulate_seq:
  "sint (accumulate seq env start stop) = to_int32 (\<Sum> {sint start..<sint stop})"
proof -
  have "{sint start..sint stop - 1} = {sint start..<sint stop}" by auto
  then have "accumulate seq env start stop = word_of_int (\<Sum> {sint start..<sint stop})"
    by (simp only: accumulate_seq sum_list_iterations)
  then show ?thesis by (simp only: sint_word_of_int32)
qed

lemma sint_accumulate_from_zero:
  assumes "policy \<noteq> par" and "0 < num_threads env" and "0 \<le> sint n"
  shows "sint (accumulate policy env 0 n) = to_int32 (closed_form (sint n))"
  using assms by (simp add: sint_accumulate_protected sum_below)

lemma printed_sums_append: "printed_sums (xs @ ys) = printed_sums xs @ printed_sums ys"
  by (induction xs rule: printed_sums.induct) simp_all

lemma main_n_value: "main_n = 268435455"
  by (simp add: main_n_def int_max_def)

subsection \<open>The closed form\<close>

text \<open>
  Claim C1, as amended. For every \<open>n \<ge> 1\<close>, under each of the policies \<open>seq\<close>,
  \<open>atomic\<close>, \<open>critical\<close> and \<open>par_reduce\<close>, and whatever the team of at least one
  thread, the assignment of the iterations and the interleaving are, \<open>accumulate\<close> over
  \<open>[0, n)\<close> returns \<open>n(n-1)/2\<close> reduced modulo \<open>2^32\<close> and read as a signed 32-bit
  integer. The returned value is \<open>n(n-1)/2\<close> itself exactly when \<open>n \<le> 65536\<close>.
\<close>

theorem accumulate_closed_form_wrapped:
  assumes "1 \<le> sint n" and "policy \<noteq> par" and "0 < num_threads env"
  shows "sint (accumulate policy env 0 n) = to_int32 (closed_form (sint n)) \<and>
         (sint (accumulate policy env 0 n) = closed_form (sint n)) = (sint n \<le> 65536)"
proof -
  have wrapped: "sint (accumulate policy env 0 n) = to_int32 (closed_form (sint n))"
    using assms by (intro sint_accumulate_from_zero) simp_all
  show ?thesis
  proof (cases "sint n \<le> 65536")
    case True
    with assms(1) have "0 \<le> closed_form (sint n) \<and> closed_form (sint n) \<le> 2147450880"
      by (intro closed_form_small) simp_all
    then have "to_int32 (closed_form (sint n)) = closed_form (sint n)"
      by (intro to_int32_id) simp_all
    with wrapped True show ?thesis by simp
  next
    case False
    then have "2147516416 \<le> closed_form (sint n)" by (intro closed_form_large) simp
    moreover have "sint (accumulate policy env 0 n) \<le> 2147483647"
      using sint_range32 [of "accumulate policy env 0 n"] by simp
    ultimately show ?thesis using wrapped False by simp
  qed
qed

theorem accumulate_closed_form_wrapped_witness:
  "1 \<le> sint (10 :: int32) \<and> atomic \<noteq> par \<and> 0 < num_threads two_threads \<and>
   sint (accumulate atomic two_threads 0 10) = to_int32 (closed_form (sint (10 :: int32))) \<and>
   (sint (accumulate atomic two_threads 0 10) = closed_form (sint (10 :: int32)))
     = (sint (10 :: int32) \<le> 65536)"
proof -
  have h1: "1 \<le> sint (10 :: int32)" by simp
  have h2: "atomic \<noteq> par" by simp
  have h3: "0 < num_threads two_threads" by (simp add: two_threads_def)
  from accumulate_closed_form_wrapped [OF h1 h2 h3] h1 h2 h3 show ?thesis by blast
qed

text \<open>
  At \<open>n = 65537\<close> the closed form is \<open>2147516416\<close>, one step beyond the largest
  \<open>int\<close>, and the sequential loop does not return it.
\<close>

theorem closed_form_exact_counterexample:
  "1 \<le> sint (65537 :: int32) \<and>
   sint (accumulate seq one_thread 0 65537) \<noteq> closed_form (sint (65537 :: int32))"
proof -
  have "sint (accumulate seq one_thread 0 65537) = to_int32 (closed_form (sint (65537 :: int32)))"
    by (intro sint_accumulate_from_zero) (simp_all add: one_thread_def)
  then show ?thesis by (simp add: closed_form_def to_int32_def)
qed

subsection \<open>The sequential sum\<close>

text \<open>
  Claim C2, as amended. For every \<open>start\<close> and \<open>end\<close>, \<open>accumulate\<close> under the
  sequential policy returns the sum of all integers \<open>i\<close> with \<open>start \<le> i < end\<close>
  (\<open>end\<close> excluded), reduced modulo \<open>2^32\<close> and read as a signed 32-bit integer; it
  returns that sum itself whenever the sum is representable as an \<open>int\<close>.
\<close>

theorem accumulate_seq_sum_wrapped:
  "sint (accumulate seq env start stop) = to_int32 (\<Sum> {sint start..<sint stop}) \<and>
   (- 2147483648 \<le> \<Sum> {sint start..<sint stop} \<and> \<Sum> {sint start..<sint stop} \<le> 2147483647
      \<longrightarrow> sint (accumulate seq env start stop) = \<Sum> {sint start..<sint stop})"
  by (simp add: sint_accumulate_seq to_int32_id)

theorem accumulate_seq_sum_wrapped_witness:
  "- 2147483648 \<le> \<Sum> {sint (2 :: int32)..<sint (6 :: int32)} \<and>
   \<Sum> {sint (2 :: int32)..<sint (6 :: int32)} \<le> 2147483647 \<and>
   sint (accumulate seq one_thread 2 6) = 14"
proof -
  have s: "\<Sum> {sint (2 :: int32)..<sint (6 :: int32)} = 14" by code_simp
  from accumulate_seq_sum_wrapped [of one_thread 2 6] show ?thesis
    unfolding s by simp
qed

text \<open>
  The integers from 0 to 65536 add up to \<open>2147516416\<close>; the sequential loop over
  \<open>[0, 65537)\<close> returns \<open>-2147450880\<close>.
\<close>

theorem seq_sum_counterexample:
  "sint (accumulate seq one_thread 0 65537) = - 2147450880 \<and>
   sum_list [0..65536 :: int] = 2147516416"
proof -
  have total: "\<Sum> {0..<65537 :: int} = 2147516416" by (simp add: sum_below closed_form_def)
  have "{0..65536 :: int} = {0..<65537}" by auto
  with total have "sum_list [0..65536 :: int] = 2147516416"
    by (simp add: interv_sum_list_conv_sum_set_int [of "\<lambda>k. k", simplified])
  moreover have "sint (accumulate seq one_thread 0 65537) = to_int32 (\<Sum> {0..<65537})"
    using sint_accumulate_seq [of one_thread 0 65537] by simp
  ultimately show ?thesis using total by (simp add: to_int32_def)
qed

subsection \<open>Reduction against the sequential loop\<close>

text \<open>
  Claim C3. For every \<open>start\<close> and \<open>end\<close>, and for every team of at least one thread,
  every assignment of the iterations to the threads and every order in which the
  private sums are combined, \<open>accumulate\<close> under \<open>par_reduce\<close> returns the value that
  \<open>accumulate\<close> under \<open>seq\<close> returns on the same bounds.
\<close>

theorem par_reduce_equals_seq:
  "0 < num_threads env \<Longrightarrow>
   accumulate par_reduce env start stop = accumulate seq env' start stop"
  by (simp add: accumulate_protected accumulate_seq)

theorem par_reduce_equals_seq_witness:
  "0 < num_threads two_threads \<and>
   accumulate par_reduce two_threads 0 10 = accumulate seq one_thread 0 10"
proof -
  have h: "0 < num_threads two_threads" by (simp add: two_threads_def)
  from par_reduce_equals_seq [OF h] h show ?thesis by blast
qed

subsection \<open>The unprotected update\<close>

text \<open>
  Claim C4. For every \<open>n\<close>, every result of \<open>accumulate\<close> under \<open>par\<close> over \<open>[0, n)\<close>
  with more than one thread is at most \<open>n(n-1)/2\<close>, in the interleaving model of the
  loads and stores; and equality does not always hold: with two threads and \<open>n = 3\<close>
  there is a run that returns 1, below the closed form 3.
\<close>

theorem par_at_most_closed_form:
  "(1 < num_threads env \<longrightarrow> sint (accumulate par env 0 n) \<le> closed_form (sint n)) \<and>
   1 < num_threads two_threads \<and>
   sint (accumulate par two_threads 0 3) < closed_form (sint (3 :: int32))"
proof -
  have bound: "sint (accumulate par env 0 n) \<le> closed_form (sint n)"
    by (rule par_bounded)
  have team: "1 < num_threads two_threads" by (simp add: two_threads_def)
  have "accumulate par two_threads 0 3 = 1" by code_simp
  then have "sint (accumulate par two_threads 0 3) < closed_form (sint (3 :: int32))"
    by (simp add: closed_form_def)
  with bound team show ?thesis by blast
qed

theorem par_at_most_closed_form_witness:
  "1 < num_threads two_threads \<and>
   sint (accumulate par two_threads 0 3) \<le> closed_form (sint (3 :: int32))"
  using par_at_most_closed_form [of two_threads 3] by blast

subsection \<open>The result does not depend on the run\<close>

text \<open>
  Claim C5. For every \<open>start\<close> and \<open>end\<close> and each of the policies \<open>seq\<close>,
  \<open>atomic\<close>, \<open>critical\<close> and \<open>par_reduce\<close>, two invocations of \<open>accumulate\<close> with
  these bounds return the same sum, whatever the two teams, assignments and
  interleavings are: the result is a function of the bounds alone.
\<close>

theorem accumulate_deterministic:
  "policy \<noteq> par \<Longrightarrow> 0 < num_threads env \<Longrightarrow> 0 < num_threads env' \<Longrightarrow>
   accumulate policy env start stop = accumulate policy env' start stop"
  by (simp add: accumulate_protected)

theorem accumulate_deterministic_witness:
  "critical \<noteq> par \<and> 0 < num_threads one_thread \<and> 0 < num_threads two_threads \<and>
   accumulate critical one_thread 0 10 = accumulate critical two_threads 0 10"
proof -
  have h1: "critical \<noteq> par" by simp
  have h2: "0 < num_threads one_thread" by (simp add: one_thread_def)
  have h3: "0 < num_threads two_threads" by (simp add: two_threads_def)
  from accumulate_deterministic [OF h1 h2 h3] h1 h2 h3 show ?thesis by blast
qed

subsection \<open>The program\<close>

text \<open>
  Claim C6. A run of \<open>main\<close>, which takes no arguments, returns exit code 0 and
  appends to the output, in this order: the elapsed milliseconds and the sum of the
  serial run; then, for the unprotected, the atomic, the critical and the reduction
  run in turn, the elapsed milliseconds and the sum of that run, followed by the
  quotient of the serial elapsed time by the elapsed time of that run.
\<close>

theorem main_report:
  "fst (main fdiv w) = 0 \<and>
   stdout (snd (main fdiv w)) = stdout w @
     [Timing ''Serial:'' (elapsed w 0) (accumulate seq (omp w seq) 0 main_n),
      Timing ''OpenMP:'' (elapsed w 1) (accumulate par (omp w par) 0 main_n),
      Speedup (fdiv (elapsed w 0) (elapsed w 1)),
      Timing ''OpenMP atomic:'' (elapsed w 2) (accumulate atomic (omp w atomic) 0 main_n),
      Speedup (fdiv (elapsed w 0) (elapsed w 2)),
      Timing ''OpenMP critical:'' (elapsed w 3) (accumulate critical (omp w critical) 0 main_n),
      Speedup (fdiv (elapsed w 0) (elapsed w 3)),
      Timing ''OpenMP reduce:'' (elapsed w 4) (accumulate par_reduce (omp w par_reduce) 0 main_n),
      Speedup (fdiv (elapsed w 0) (elapsed w 4))]"
  by (simp add: main_run)

subsection \<open>The examples\<close>

text \<open>
  Claim C7. For \<open>start = 5\<close> and \<open>end = 5\<close>, an empty range, \<open>accumulate\<close> returns 0
  under each of the five policies, whatever the runtime does.
\<close>

theorem accumulate_empty_range: "accumulate policy env 5 5 = 0"
proof -
  have its: "iterations 5 5 = []" by (simp add: iterations_empty)
  show ?thesis
    by (cases policy)
       (simp_all add: accumulate_def its seq_loop_sum_list atomic_run_sum_list
          critical_run_sum_list reduce_run_sum_list concat_distribute_Nil par_run_no_work)
qed

text \<open>
  Claim C8. For \<open>start = 0\<close> and \<open>end = 10\<close>, \<open>accumulate\<close> returns 45 under the
  policies \<open>seq\<close>, \<open>atomic\<close>, \<open>critical\<close> and \<open>par_reduce\<close>, for every team of at
  least one thread and every run.
\<close>

theorem accumulate_0_10:
  "policy \<noteq> par \<Longrightarrow> 0 < num_threads env \<Longrightarrow> accumulate policy env 0 10 = 45"
proof -
  assume "policy \<noteq> par" and "0 < num_threads env"
  then have "accumulate policy env 0 10 = sum_list (iterations 0 10)"
    by (rule accumulate_protected)
  also have "\<dots> = word_of_int (closed_form 10)"
    using sum_from_zero [of 10] by (simp add: sum_list_iterations)
  also have "\<dots> = 45" by (simp add: closed_form_def)
  finally show ?thesis .
qed

theorem accumulate_0_10_witness:
  "par_reduce \<noteq> par \<and> 0 < num_threads two_threads \<and> accumulate par_reduce two_threads 0 10 = 45"
proof -
  have h1: "par_reduce \<noteq> par" by simp
  have h2: "0 < num_threads two_threads" by (simp add: two_threads_def)
  from accumulate_0_10 [OF h1 h2] h1 h2 show ?thesis by blast
qed

subsection \<open>The sum that \<open>main\<close> prints\<close>

text \<open>
  Claim C9. In \<open>main\<close> the bound is \<open>n = INT_MAX >> 3 = 268435455\<close> and the sums are
  \<open>int\<close>s. The closed form \<open>n(n-1)/2 = 36028796616310785\<close> exceeds \<open>INT_MAX\<close>. With
  wrap-around, the value that the policies \<open>seq\<close>, \<open>atomic\<close>, \<open>critical\<close> and
  \<open>par_reduce\<close> compute, and that \<open>main\<close> prints for them, is the closed form
  reduced modulo \<open>2^32\<close> and read as a signed 32-bit integer, which is \<open>-402653183\<close>
  and not the closed form.
\<close>

theorem main_sums_wrap:
  assumes "\<forall>p. 0 < num_threads (omp w p)"
  shows "sint main_n = 268435455 \<and>
         closed_form (sint main_n) = 36028796616310785 \<and>
         sint int_max < closed_form (sint main_n) \<and>
         to_int32 (closed_form (sint main_n)) = - 402653183 \<and>
         (\<forall>p. p \<noteq> par \<longrightarrow>
            sint (accumulate p (omp w p) 0 main_n) = to_int32 (closed_form (sint main_n))) \<and>
         printed_sums (stdout (snd (main fdiv w))) = printed_sums (stdout w) @
           [- 402653183, sint (accumulate par (omp w par) 0 main_n),
            - 402653183, - 402653183, - 402653183]"
proof -
  have n: "sint main_n = 268435455" by (simp add: main_n_value)
  have cf: "closed_form (sint main_n) = 36028796616310785"
    by (simp add: n closed_form_def)
  have big: "sint int_max < closed_form (sint main_n)"
    by (simp add: cf int_max_def)
  have wrapped: "to_int32 (closed_form (sint main_n)) = - 402653183"
    by (simp add: cf to_int32_def)
  have each: "sint (accumulate p (omp w p) 0 main_n) = to_int32 (closed_form (sint main_n))"
    if "p \<noteq> par" for p
    using that assms by (intro sint_accumulate_from_zero) (simp_all add: n)
  have "printed_sums (stdout (snd (main fdiv w))) = printed_sums (stdout w) @
      [sint (accumulate seq (omp w seq) 0 main_n), sint (accumulate par (omp w par) 0 main_n),
       sint (accumulate atomic (omp w atomic) 0 main_n),
       sint (accumulate critical (omp w critical) 0 main_n),
       sint (accumulate par_reduce (omp w par_reduce) 0 main_n)]"
    by (simp add: main_run printed_sums_append)
  then have printed: "printed_sums (stdout (snd (main fdiv w))) = printed_sums (stdout w) @
      [- 402653183, sint (accumulate par (omp w par) 0 main_n),
       - 402653183, - 402653183, - 402653183]"
    by (simp add: each wrapped)
  from n cf big wrapped each printed show ?thesis by blast
qed

theorem main_sums_wrap_witness:
  "(\<forall>p. 0 < num_threads (omp ticking_world p)) \<and>
   sint (accumulate critical (omp ticking_world critical) 0 main_n) = - 402653183 \<and>
   hd (printed_sums (stdout (snd (main operands ticking_world)))) = - 402653183"
proof -
  have h: "\<forall>p. 0 < num_threads (omp ticking_world p)"
    by (simp add: ticking_world_def two_threads_def)
  note run = main_sums_wrap [OF h, of operands]
  from run have "sint (accumulate critical (omp ticking_world critical) 0 main_n)
                   = to_int32 (closed_form (sint main_n))"
    by blast
  moreover from run have "to_int32 (closed_form (sint main_n)) = - 402653183"
    by blast
  moreover from run have "printed_sums (stdout (snd (main operands ticking_world)))
      = printed_sums (stdout ticking_world) @
          [- 402653183, sint (accumulate par (omp ticking_world par) 0 main_n),
           - 402653183, - 402653183, - 402653183]"
    by blast
  then have "hd (printed_sums (stdout (snd (main operands ticking_world)))) = - 402653183"
    by (simp add: ticking_world_def)
  ultimately show ?thesis using h by simp
qed

subsection \<open>The speedup when a run measures 0 ms\<close>

lemma printed_speedups_append:
  "printed_speedups (xs @ ys) = printed_speedups xs @ printed_speedups ys"
  by (induction xs rule: printed_speedups.induct) simp_all

lemma ieee_div_zero: "\<not> is_finite (ieee_div a 0)"
  by (simp add: ieee_div_def)

lemma main_speedups:
  "printed_speedups (stdout (snd (main fdiv w))) = printed_speedups (stdout w) @
     [fdiv (elapsed w 0) (elapsed w 1), fdiv (elapsed w 0) (elapsed w 2),
      fdiv (elapsed w 0) (elapsed w 3), fdiv (elapsed w 0) (elapsed w 4)]"
  by (simp add: main_run printed_speedups_append)

text \<open>
  Claim C10. \<open>accRatio\<close> divides the serial elapsed milliseconds by the elapsed
  milliseconds of the target strategy and checks nothing before: with a target time of
  0 its result is not a finite number, whatever the origin time is. So in every run of
  \<open>main\<close> in which the \<open>k\<close>-th timed call, one of the four parallel strategies
  (\<open>1 \<le> k \<le> 4\<close>), measures 0 ms, the speedup printed for that strategy is not
  a finite number. Such a run exists: when the clock stands still during the reduction,
  the last speedup printed is plus infinity.
\<close>

theorem speedup_not_finite_at_zero:
  "\<not> is_finite (accRatio ieee_div originTime 0) \<and>
   (1 \<le> k \<and> k \<le> 4 \<and> elapsed w k = 0 \<longrightarrow>
      \<not> is_finite (printed_speedups (stdout (snd (main ieee_div w)))
                      ! (length (printed_speedups (stdout w)) + (k - 1)))) \<and>
   elapsed stalling_world 4 = 0 \<and>
   printed_speedups (stdout (snd (main ieee_div stalling_world)))
     = [Finite 1 1, Finite 1 1, Finite 1 1, PosInf]"
proof -
  have guard: "\<not> is_finite (accRatio ieee_div originTime 0)"
    by (simp add: accRatio_def ieee_div_zero)
  have general: "\<not> is_finite (printed_speedups (stdout (snd (main ieee_div w)))
                      ! (length (printed_speedups (stdout w)) + (k - 1)))"
    if k: "1 \<le> k" "k \<le> 4" and zero: "elapsed w k = 0"
  proof -
    from k consider "k = 1" | "k = 2" | "k = 3" | "k = 4" by linarith
    then show ?thesis
      using zero by cases (simp_all add: main_speedups nth_append ieee_div_zero)
  qed
  have stall: "elapsed stalling_world 4 = 0"
    by (simp add: elapsed_def stalling_world_def)
  have run: "printed_speedups (stdout (snd (main ieee_div stalling_world)))
               = [Finite 1 1, Finite 1 1, Finite 1 1, PosInf]"
    by (simp add: main_speedups elapsed_def stalling_world_def ieee_div_def)
  from guard general stall run show ?thesis by blast
qed

theorem speedup_not_finite_at_zero_witness:
  "(1 :: nat) \<le> 4 \<and> (4 :: nat) \<le> 4 \<and> elapsed stalling_world 4 = 0 \<and>
   \<not> is_finite (printed_speedups (stdout (snd (main ieee_div stalling_world)))
                   ! (length (printed_speedups (stdout stalling_world)) + (4 - 1)))"
proof -
  have h: "(1 :: nat) \<le> 4 \<and> (4 :: nat) \<le> 4 \<and> elapsed stalling_world 4 = 0"
    by (simp add: elapsed_def stalling_world_def)
  from speedup_not_finite_at_zero [of _ 4 stalling_world] h show ?thesis by blast
qed

end
